theory Spec2Isabelle
  imports Main
begin

section \<open>The scheme defanger\<close>

text \<open>
  A Go string is modelled as a \<^typ>\<open>string\<close>, one \<^typ>\<open>char\<close> per byte:
  \<open>len(scheme)\<close> and \<open>==\<close> work on bytes, and so does the pattern below, whose
  characters are ASCII. \<open>replaceAtPositions\<close> indexes the runes of the string
  instead. The schemes of the registry are cut out by \<open>SCHEME_PATTERN\<close> (word
  characters and \<open>-\<close>, \<open>+\<close>, \<open>.\<close>), so they are ASCII, and an ASCII string has
  one rune per byte. The statements below that depend on the indices of
  \<open>replaceAtPositions\<close> are made for ASCII schemes: they carry \<open>ascii scheme\<close> as
  a hypothesis.
\<close>

definition ascii :: "string \<Rightarrow> bool" where
  "ascii s = list_all (\<lambda>c. (of_char c :: nat) < 128) s"

text \<open>\<open>var ADDITIONAL_ALLOWED_SCHEME_CHARS = []rune{'-', '+', '.'}\<close>\<close>

definition ADDITIONAL_ALLOWED_SCHEME_CHARS :: "char list" where
  "ADDITIONAL_ALLOWED_SCHEME_CHARS = [CHR ''-'', CHR ''+'', CHR ''.'']"

text \<open>
  \<open>ADDITIONAL_ALLOWED_SCHEME_CHARS_PATTERN\<close> is the regular expression that
  \<open>additionalAllowedSchemeCharsPattern\<close> compiles: the character class of the
  characters above, repeated one or more times. \<open>additionalChar\<close> is the character
  class, \<open>MatchString\<close> says whether the pattern matches anywhere in the string, and
  \<open>ReplaceAllStringFunc\<close> rewrites every match, from left to right, by the function
  given; the repetition is greedy, so a match is the whole run of class characters
  that starts where the match starts.
\<close>

definition additionalChar :: "char \<Rightarrow> bool" where
  "additionalChar c = (c \<in> set ADDITIONAL_ALLOWED_SCHEME_CHARS)"

definition MatchString :: "string \<Rightarrow> bool" where
  "MatchString s = list_ex additionalChar s"

function ReplaceAllStringFunc :: "string \<Rightarrow> (string \<Rightarrow> string) \<Rightarrow> string" where
  "ReplaceAllStringFunc [] repl = []"
| "ReplaceAllStringFunc (c # cs) repl =
     (if additionalChar c
      then repl (c # takeWhile additionalChar cs)
           @ ReplaceAllStringFunc (dropWhile additionalChar cs) repl
      else c # ReplaceAllStringFunc cs repl)"
  by pat_completeness auto
termination
  by (relation "measure (\<lambda>(s, repl). length s)")
     (auto simp: length_dropWhile_le less_Suc_eq_le)

text \<open>
  \<open>replaceAtPositions\<close>: the loop over \<open>positions\<close>; a position outside the string is
  skipped by the source's bounds check.
\<close>

fun replaceAtPositions :: "string \<Rightarrow> int list \<Rightarrow> char \<Rightarrow> string" where
  "replaceAtPositions s [] replacement = s"
| "replaceAtPositions s (pos # positions) replacement =
     replaceAtPositions
       (if 0 \<le> pos \<and> pos < int (length s) then s[nat pos := replacement] else s)
       positions replacement"

definition defangAtPositions :: "string \<Rightarrow> int list \<Rightarrow> string" where
  "defangAtPositions s positions = replaceAtPositions s positions (CHR ''x'')"

text \<open>
  \<open>DefangScheme\<close> prints an error and leaves the process with \<open>os.Exit(1)\<close> on a
  scheme of length 1: that is the value \<open>Inl (UnhandledLength1 scheme)\<close>. Every
  other path returns a string, \<open>Inr\<close>.
\<close>

datatype failure = UnhandledLength1 string

definition DefangScheme :: "string \<Rightarrow> failure + string" where
  "DefangScheme scheme =
     (if length scheme = 1 then Inl (UnhandledLength1 scheme)
      else if scheme = ''http'' \<or> scheme = ''https''
        then Inr (defangAtPositions scheme [1, 2])
      else if MatchString scheme
        then Inr (ReplaceAllStringFunc scheme (\<lambda>match. ''['' @ match @ '']''))
      else if length scheme = 3 then Inr (defangAtPositions scheme [1])
      else if length scheme = 2 then Inr (defangAtPositions scheme [1])
      else if length scheme = 4 then Inr (defangAtPositions scheme [2])
      else Inr (defangAtPositions scheme [1, 2]))"

text \<open>
  The positions that \<open>DefangScheme\<close> hands to \<open>defangAtPositions\<close> for a scheme
  that the pattern does not match: the literal of each of its cases, in their order.
\<close>

definition markerPositions :: "string \<Rightarrow> int list" where
  "markerPositions scheme =
     (if scheme = ''http'' \<or> scheme = ''https'' then [1, 2]
      else if length scheme = 3 then [1]
      else if length scheme = 2 then [1]
      else if length scheme = 4 then [2]
      else [1, 2])"

subsection \<open>Bracket wrapping as the specification words it\<close>

text \<open>
  The specification speaks of the maximal runs of the additional characters.
  \<open>maximalRuns\<close> cuts a string into its maximal runs of characters of one kind
  (additional or not), and \<open>bracketRun\<close> wraps a run of additional characters in
  square brackets and leaves any other run as it is. They are compared with
  \<open>ReplaceAllStringFunc\<close> below.
\<close>

function maximalRuns :: "string \<Rightarrow> string list" where
  "maximalRuns [] = []"
| "maximalRuns (c # cs) =
     (c # takeWhile (\<lambda>d. additionalChar d = additionalChar c) cs)
     # maximalRuns (dropWhile (\<lambda>d. additionalChar d = additionalChar c) cs)"
  by pat_completeness auto
termination
  by (relation "measure length") (auto simp: length_dropWhile_le less_Suc_eq_le)

definition bracketRun :: "string \<Rightarrow> string" where
  "bracketRun r = (if list_ex additionalChar r then ''['' @ r @ '']'' else r)"

section \<open>The registry verifier (tools/defangcheck)\<close>

datatype Status = Permanent | Provisional | Historical

record Scheme =
  Scheme :: string
  DefangedScheme :: string
  Template :: string
  Description :: string
  Status :: Status
  WellKnownUriSupport :: string
  Reference :: string
  Notes :: string

text \<open>
  The lines the tool prints, one constructor per format string:
  \<^item> \<open>WarnOnlyPermanent\<close>: \<open>[WARN] Only checking validity of permanent URI schemes\<close>
  \<^item> \<open>InfoCheckingNotValid\<close>: \<open>[INFO] Checking that the defang algorithm does not
    produce any valid schemes\<close>
  \<^item> \<open>WarnHttpDefangsToValid\<close>: \<open>[WARN] HTTP[S] defangs into a valid (albeit
    provisional) scheme. ...\<close>
  \<^item> \<open>ErrorStillValid d\<close>: \<open>[ERROR] Defanged scheme "d" is still a valid scheme\<close>
  \<^item> \<open>InfoCheckingOneToOne\<close>: \<open>[INFO] Checking that the defang algorithm is (kind
    of) invertible\<close>
  \<^item> \<open>WarnHttpDefangsToHxxp\<close>: \<open>[WARN] HTTP[S] defanges into HXXP[S], which are valid
    (albeit provisional) schemes. ...\<close>
  \<^item> \<open>ErrorDuplicated d offenders\<close>: \<open>[ERROR] Defanged scheme "d" is duplicated,
    meaning that re-fanging would be ambiguous due to the following offenders:\<close>
    followed by the offenders joined with a comma and a space.
\<close>

datatype message =
    WarnOnlyPermanent
  | InfoCheckingNotValid
  | WarnHttpDefangsToValid
  | ErrorStillValid string
  | InfoCheckingOneToOne
  | WarnHttpDefangsToHxxp
  | ErrorDuplicated string "string list"

fun isWarn :: "message \<Rightarrow> bool" where
  "isWarn WarnOnlyPermanent = True"
| "isWarn WarnHttpDefangsToValid = True"
| "isWarn WarnHttpDefangsToHxxp = True"
| "isWarn _ = False"

fun isError :: "message \<Rightarrow> bool" where
  "isError (ErrorStillValid d) = True"
| "isError (ErrorDuplicated d offenders) = True"
| "isError _ = False"

text \<open>
  A run of the tool is the list of the lines it printed and how it ended: it returned,
  or it left the process with \<open>os.Exit(1)\<close>, after which nothing more is printed.
\<close>

datatype status = Returned | Exited int

type_synonym run = "message list \<times> status"

fun emit :: "message \<Rightarrow> run \<Rightarrow> run" where
  "emit m (out, st) = (m # out, st)"

fun defangedSchemeIsKnown :: "Scheme \<Rightarrow> Scheme list \<Rightarrow> bool" where
  "defangedSchemeIsKnown scheme [] = False"
| "defangedSchemeIsKnown scheme (knownScheme # knownSchemes) =
     (if DefangedScheme scheme = Scheme knownScheme then True
      else defangedSchemeIsKnown scheme knownSchemes)"

text \<open>The condition both checks use to recognise the known edge case.\<close>

definition httpEdgeCase :: "Scheme \<Rightarrow> bool" where
  "httpEdgeCase scheme =
     (Scheme scheme = ''http'' \<or> Scheme scheme = ''hxxp'' \<or>
      Scheme scheme = ''https'' \<or> Scheme scheme = ''hxxps'')"

text \<open>
  The loop of \<open>defangedSchemesAreNotValid\<close> over the schemes still to visit, with the
  flag \<open>http_warned\<close>; the first argument is the whole slice, which
  \<open>defangedSchemeIsKnown\<close> searches.
\<close>

fun notValidLoop :: "Scheme list \<Rightarrow> Scheme list \<Rightarrow> bool \<Rightarrow> run" where
  "notValidLoop schemes [] http_warned = ([], Returned)"
| "notValidLoop schemes (scheme # rest) http_warned =
     (if defangedSchemeIsKnown scheme schemes then
        (if httpEdgeCase scheme then
           (if \<not> http_warned
            then emit WarnHttpDefangsToValid (notValidLoop schemes rest True)
            else notValidLoop schemes rest http_warned)
         else ([ErrorStillValid (DefangedScheme scheme)], Exited 1))
      else notValidLoop schemes rest http_warned)"

definition defangedSchemesAreNotValid :: "Scheme list \<Rightarrow> run" where
  "defangedSchemesAreNotValid schemes =
     emit InfoCheckingNotValid (notValidLoop schemes schemes False)"

text \<open>
  The loop of \<open>defangedSchemesAreOneToOne\<close>, with the flag and the set
  \<open>seenDefangedSchemes\<close>. \<open>duplicateSchemes\<close> is its inner loop, which collects the
  name of every scheme of the slice with the defanged form of the offender.
\<close>

definition duplicateSchemes :: "Scheme list \<Rightarrow> Scheme \<Rightarrow> string list" where
  "duplicateSchemes schemes scheme =
     map Scheme (filter (\<lambda>scheme1. DefangedScheme scheme1 = DefangedScheme scheme) schemes)"

fun oneToOneLoop :: "Scheme list \<Rightarrow> Scheme list \<Rightarrow> bool \<Rightarrow> string set \<Rightarrow> run" where
  "oneToOneLoop schemes [] http_warned seenDefangedSchemes = ([], Returned)"
| "oneToOneLoop schemes (scheme # rest) http_warned seenDefangedSchemes =
     (if DefangedScheme scheme \<in> seenDefangedSchemes then
        (if httpEdgeCase scheme then
           (if \<not> http_warned
            then emit WarnHttpDefangsToHxxp
                   (oneToOneLoop schemes rest True
                      (insert (DefangedScheme scheme) seenDefangedSchemes))
            else oneToOneLoop schemes rest http_warned
                   (insert (DefangedScheme scheme) seenDefangedSchemes))
         else ([ErrorDuplicated (DefangedScheme scheme) (duplicateSchemes schemes scheme)],
               Exited 1))
      else oneToOneLoop schemes rest http_warned
             (insert (DefangedScheme scheme) seenDefangedSchemes))"

definition defangedSchemesAreOneToOne :: "Scheme list \<Rightarrow> run" where
  "defangedSchemesAreOneToOne schemes =
     emit InfoCheckingOneToOne (oneToOneLoop schemes schemes False {})"

text \<open>
  \<open>verify\<close> is the pair of calls that ends \<open>main\<close>: the second check runs only if the
  first one returned. \<open>main\<close> takes the values of the scheme map in the order the
  iteration yields them and checks the permanent ones.
\<close>

definition verify :: "Scheme list \<Rightarrow> run" where
  "verify schemes =
     (case defangedSchemesAreNotValid schemes of
        (out, Exited n) \<Rightarrow> (out, Exited n)
      | (out, Returned) \<Rightarrow>
          (case defangedSchemesAreOneToOne schemes of (out', st) \<Rightarrow> (out @ out', st)))"

definition main :: "Scheme list \<Rightarrow> run" where
  "main schemes =
     emit WarnOnlyPermanent
       (verify (filter (\<lambda>scheme. Status scheme = Permanent) schemes))"

text \<open>
  The record that tools/writeconsts stores for a scheme whose defanged form is
  \<open>defanged\<close>; the fields the checks do not read are left empty.
\<close>

definition entry :: "string \<Rightarrow> string \<Rightarrow> Scheme" where
  "entry name defanged =
     \<lparr>Scheme = name, DefangedScheme = defanged, Template = [], Description = [],
      Status = Permanent, WellKnownUriSupport = [], Reference = [], Notes = []\<rparr>"

section \<open>Properties of the defanger\<close>

lemmas defang_eval =
  DefangScheme_def defangAtPositions_def MatchString_def additionalChar_def
  ADDITIONAL_ALLOWED_SCHEME_CHARS_def

lemma MatchString_iff:
  "MatchString s \<longleftrightarrow> CHR ''-'' \<in> set s \<or> CHR ''+'' \<in> set s \<or> CHR ''.'' \<in> set s"
  by (auto simp: MatchString_def additionalChar_def ADDITIONAL_ALLOWED_SCHEME_CHARS_def list_ex_iff)

lemma DefangScheme_plain:
  assumes "length s \<noteq> 1" "\<not> MatchString s"
  shows "DefangScheme s = Inr (defangAtPositions s (markerPositions s))"
  using assms by (simp add: DefangScheme_def markerPositions_def)

lemma defangAt_1:
  "1 < length s \<Longrightarrow> defangAtPositions s [1] = s[1 := CHR ''x'']"
  by (simp add: defangAtPositions_def)

lemma defangAt_2:
  "2 < length s \<Longrightarrow> defangAtPositions s [2] = s[2 := CHR ''x'']"
  by (simp add: defangAtPositions_def)

lemma defangAt_12:
  "2 < length s \<Longrightarrow> defangAtPositions s [1, 2] = s[1 := CHR ''x'', 2 := CHR ''x'']"
  by (simp add: defangAtPositions_def)

lemma update2_id_iff:
  assumes "2 < length s"
  shows "s[Suc 0 := x, 2 := x] = s \<longleftrightarrow> s ! Suc 0 = x \<and> s ! 2 = x"
proof
  assume e: "s[Suc 0 := x, 2 := x] = s"
  have "s[Suc 0 := x, 2 := x] ! Suc 0 = x" "s[Suc 0 := x, 2 := x] ! 2 = x"
    using assms by simp_all
  with e show "s ! Suc 0 = x \<and> s ! 2 = x" by simp
next
  assume "s ! Suc 0 = x \<and> s ! 2 = x"
  then show "s[Suc 0 := x, 2 := x] = s" by (metis list_update_id)
qed

lemma defangAt_marker_fixed_iff:
  assumes "2 \<le> length s"
  shows "defangAtPositions s (markerPositions s) = s
         \<longleftrightarrow> (\<forall>p\<in>set (markerPositions s). s ! nat p = CHR ''x'')"
proof -
  consider (h) "s = ''http'' \<or> s = ''https''"
    | (l3) "length s = 3" "\<not> (s = ''http'' \<or> s = ''https'')"
    | (l2) "length s = 2"
    | (l4) "length s = 4" "\<not> (s = ''http'' \<or> s = ''https'')"
    | (d) "4 < length s" "\<not> (s = ''http'' \<or> s = ''https'')"
    using assms by force
  then show ?thesis
  proof cases
    case h then show ?thesis
      by (auto simp: markerPositions_def defangAtPositions_def)
  next
    case l3 then show ?thesis
      by (simp add: markerPositions_def defangAt_1 list_update_same_conv)
  next
    case l2 then show ?thesis
      by (auto simp: markerPositions_def defangAt_1 list_update_same_conv)
  next
    case l4 then show ?thesis
      by (simp add: markerPositions_def defangAt_2 list_update_same_conv)
  next
    case d then show ?thesis
      using update2_id_iff[of s "CHR ''x''"]
      by (simp add: markerPositions_def defangAt_12)
  qed
qed

lemma length_ReplaceAll_ge:
  "length s \<le> length (ReplaceAllStringFunc s (\<lambda>match. ''['' @ match @ '']''))"
proof (induction s "\<lambda>match::string. ''['' @ match @ '']''" rule: ReplaceAllStringFunc.induct)
  case 1 show ?case by simp
next
  case (2 c cs)
  show ?case
  proof (cases "additionalChar c")
    case True
    have "length cs = length (takeWhile additionalChar cs) + length (dropWhile additionalChar cs)"
      by (metis length_append takeWhile_dropWhile_id)
    with True 2(1) show ?thesis by simp
  next
    case False with 2(2) show ?thesis by simp
  qed
qed

lemma length_ReplaceAll_gt:
  "list_ex additionalChar s \<Longrightarrow>
     length s < length (ReplaceAllStringFunc s (\<lambda>match. ''['' @ match @ '']''))"
proof (induction s)
  case Nil then show ?case by simp
next
  case (Cons c cs)
  show ?case
  proof (cases "additionalChar c")
    case True
    have "length cs = length (takeWhile additionalChar cs) + length (dropWhile additionalChar cs)"
      by (metis length_append takeWhile_dropWhile_id)
    with True length_ReplaceAll_ge[of "dropWhile additionalChar cs"] show ?thesis by simp
  next
    case False with Cons show ?thesis by simp
  qed
qed

lemma DefangScheme_fixed_iff:
  assumes "2 \<le> length s"
  shows "DefangScheme s = Inr s
         \<longleftrightarrow> \<not> MatchString s \<and> (\<forall>p\<in>set (markerPositions s). s ! nat p = CHR ''x'')"
proof (cases "MatchString s")
  case True
  then have ne: "s \<noteq> ''http''" "s \<noteq> ''https''"
    by (auto simp: MatchString_iff)
  from True have "length s < length (ReplaceAllStringFunc s (\<lambda>match. ''['' @ match @ '']''))"
    unfolding MatchString_def by (rule length_ReplaceAll_gt)
  then have "ReplaceAllStringFunc s (\<lambda>match. ''['' @ match @ '']'') \<noteq> s" by auto
  with True ne assms show ?thesis by (simp add: DefangScheme_def)
next
  case False
  with assms have "DefangScheme s = Inr (defangAtPositions s (markerPositions s))"
    by (intro DefangScheme_plain) auto
  with False defangAt_marker_fixed_iff[OF assms] show ?thesis by simp
qed

lemma ReplaceAll_plain_prefix:
  "list_all (\<lambda>c. \<not> additionalChar c) xs \<Longrightarrow>
     ReplaceAllStringFunc (xs @ ys) repl = xs @ ReplaceAllStringFunc ys repl"
  by (induction xs) simp_all

lemma takeWhile_all: "list_all P (takeWhile P xs)"
  by (induction xs) simp_all

lemma ReplaceAll_runs:
  "ReplaceAllStringFunc s (\<lambda>match. ''['' @ match @ '']'')
     = concat (map bracketRun (maximalRuns s))"
proof (induction s rule: maximalRuns.induct)
  case 1 show ?case by simp
next
  case (2 c cs)
  show ?case
  proof (cases "additionalChar c")
    case True
    then have p: "(\<lambda>d. additionalChar d = additionalChar c) = additionalChar" by auto
    from True 2 show ?thesis by (simp add: p bracketRun_def)
  next
    case False
    then have p: "(\<lambda>d. additionalChar d = additionalChar c) = (\<lambda>d. \<not> additionalChar d)" by auto
    let ?t = "takeWhile (\<lambda>d. \<not> additionalChar d) cs"
    let ?d = "dropWhile (\<lambda>d. \<not> additionalChar d) cs"
    have "ReplaceAllStringFunc (c # cs) (\<lambda>match. ''['' @ match @ '']'')
          = ReplaceAllStringFunc ((c # ?t) @ ?d) (\<lambda>match. ''['' @ match @ '']'')"
      by simp
    also have "\<dots> = (c # ?t) @ ReplaceAllStringFunc ?d (\<lambda>match. ''['' @ match @ '']'')"
      using False by (intro ReplaceAll_plain_prefix) (simp add: takeWhile_all)
    also have "\<dots> = (c # ?t) @ concat (map bracketRun (maximalRuns ?d))"
      using 2 by (simp add: p)
    also have "\<dots> = concat (map bracketRun (maximalRuns (c # cs)))"
    proof -
      have "\<not> list_ex additionalChar (c # ?t)"
        using False takeWhile_all[of "\<lambda>d. \<not> additionalChar d" cs]
        by (simp add: list_ex_iff list_all_iff)
      then show ?thesis by (simp add: p bracketRun_def)
    qed
    finally show ?thesis .
  qed
qed

lemma concat_maximalRuns: "concat (maximalRuns s) = s"
  by (induction s rule: maximalRuns.induct) simp_all

lemma maximalRuns_uniform:
  "r \<in> set (maximalRuns s) \<Longrightarrow>
     r \<noteq> [] \<and> (list_all additionalChar r \<or> list_all (\<lambda>c. \<not> additionalChar c) r)"
proof (induction s rule: maximalRuns.induct)
  case 1 then show ?case by simp
next
  case (2 c cs)
  let ?p = "\<lambda>d. additionalChar d = additionalChar c"
  from 2(2) consider "r = c # takeWhile ?p cs" | "r \<in> set (maximalRuns (dropWhile ?p cs))"
    by auto
  then show ?case
  proof cases
    case 1
    have "list_all ?p (c # takeWhile ?p cs)" by (simp add: takeWhile_all)
    with 1 show ?thesis by (cases "additionalChar c") (auto simp: list_all_iff)
  next
    case 2 with "2.IH" show ?thesis by simp
  qed
qed

lemma hd_maximalRuns:
  "s \<noteq> [] \<Longrightarrow> hd (hd (maximalRuns s)) = hd s"
  by (cases s) simp_all

lemma maximalRuns_Nil_iff: "maximalRuns s = [] \<longleftrightarrow> s = []"
  by (cases s) simp_all

lemma maximalRuns_alternate:
  "Suc i < length (maximalRuns s) \<Longrightarrow>
     additionalChar (hd (maximalRuns s ! i)) \<noteq> additionalChar (hd (maximalRuns s ! Suc i))"
proof (induction s arbitrary: i rule: maximalRuns.induct)
  case 1 then show ?case by simp
next
  case (2 c cs)
  let ?p = "\<lambda>d. additionalChar d = additionalChar c"
  let ?d = "dropWhile ?p cs"
  show ?case
  proof (cases i)
    case 0
    with 2(2) have ne: "?d \<noteq> []" by (auto simp: maximalRuns_Nil_iff)
    then have "\<not> ?p (hd ?d)" by (rule hd_dropWhile)
    moreover have "hd (maximalRuns ?d ! 0) = hd ?d"
      using ne hd_maximalRuns[of ?d] by (simp add: hd_conv_nth maximalRuns_Nil_iff)
    ultimately show ?thesis using 0 by simp
  next
    case (Suc j)
    with 2(2) have "Suc j < length (maximalRuns ?d)" by simp
    from "2.IH"[OF this] Suc show ?thesis by simp
  qed
qed

subsection \<open>The two conventional schemes\<close>

text \<open>
  Claim C8. \<open>DefangScheme\<close> maps \<open>https\<close> to \<open>hxxps\<close> and \<open>http\<close> to \<open>hxxp\<close>: the
  characters at positions 1 and 2 become the marker \<open>x\<close>, the others stay.
\<close>

theorem DefangScheme_http_https:
  "DefangScheme ''https'' = Inr ''hxxps'' \<and> DefangScheme ''http'' = Inr ''hxxp''"
  by (simp add: defang_eval)

subsection \<open>Which inputs are rejected\<close>

text \<open>
  Claim C3, as the code has it. \<open>DefangScheme\<close> leaves the process exactly on the
  inputs of length 1; every other input, the empty string included, returns a result.
\<close>

theorem DefangScheme_rejects_exactly_length_1:
  "(length s = 1 \<longrightarrow> DefangScheme s = Inl (UnhandledLength1 s)) \<and>
   (length s \<noteq> 1 \<longrightarrow> (\<exists>r. DefangScheme s = Inr r))"
  by (simp add: DefangScheme_def)

theorem DefangScheme_rejects_exactly_length_1_witness:
  "length ''a'' = 1 \<and> DefangScheme ''a'' = Inl (UnhandledLength1 ''a'') \<and>
   length ''ftp'' \<noteq> 1 \<and> (\<exists>r. DefangScheme ''ftp'' = Inr r)"
  using DefangScheme_rejects_exactly_length_1 [of "''a''"]
        DefangScheme_rejects_exactly_length_1 [of "''ftp''"]
  by simp

text \<open>
  Claim C3 as stated fails at the empty string: it is shorter than 2 characters and
  \<open>DefangScheme\<close> returns it, with no error.
\<close>

theorem DefangScheme_empty_returns:
  "length ([] :: string) < 2 \<and> DefangScheme [] = Inr []"
  by (simp add: defang_eval)

subsection \<open>Fixed points\<close>

text \<open>
  Claim C10. A scheme of length at least 2 that contains none of \<open>-\<close>, \<open>+\<close>, \<open>.\<close>
  and has the marker \<open>x\<close> at every marker position of its rule is returned unchanged;
  \<open>hxxp\<close> and \<open>hxxps\<close> are such schemes.
\<close>

theorem DefangScheme_fixed_points:
  "(ascii s \<and> 2 \<le> length s \<and>
    CHR ''-'' \<notin> set s \<and> CHR ''+'' \<notin> set s \<and> CHR ''.'' \<notin> set s \<and>
    (\<forall>p\<in>set (markerPositions s). s ! nat p = CHR ''x'')
      \<longrightarrow> DefangScheme s = Inr s) \<and>
   DefangScheme ''hxxp'' = Inr ''hxxp'' \<and> DefangScheme ''hxxps'' = Inr ''hxxps''"
proof (intro conjI impI)
  assume a: "ascii s \<and> 2 \<le> length s \<and>
    CHR ''-'' \<notin> set s \<and> CHR ''+'' \<notin> set s \<and> CHR ''.'' \<notin> set s \<and>
    (\<forall>p\<in>set (markerPositions s). s ! nat p = CHR ''x'')"
  then have "\<not> MatchString s" by (simp add: MatchString_iff)
  with a show "DefangScheme s = Inr s" by (simp add: DefangScheme_fixed_iff)
next
  show "DefangScheme ''hxxp'' = Inr ''hxxp''" by (simp add: defang_eval)
next
  show "DefangScheme ''hxxps'' = Inr ''hxxps''" by (simp add: defang_eval)
qed

theorem DefangScheme_fixed_points_witness:
  "ascii ''axa'' \<and> 2 \<le> length ''axa'' \<and> markerPositions ''axa'' = [1] \<and>
   ''axa'' ! 1 = CHR ''x'' \<and> DefangScheme ''axa'' = Inr ''axa''"
  using DefangScheme_fixed_points [of "''axa''"]
  by (simp add: ascii_def markerPositions_def)

text \<open>
  Claim C1, as the code has it. A scheme of length at least 2 gets a result, and the
  result is the scheme itself exactly when the scheme contains none of \<open>-\<close>, \<open>+\<close>,
  \<open>.\<close> and already has the marker \<open>x\<close> at every marker position of its rule; in
  every other case the result differs from the scheme.
\<close>

theorem DefangScheme_differs_unless_marked:
  assumes "ascii s" and "2 \<le> length s"
  shows "\<exists>r. DefangScheme s = Inr r \<and>
           (r = s \<longleftrightarrow>
              CHR ''-'' \<notin> set s \<and> CHR ''+'' \<notin> set s \<and> CHR ''.'' \<notin> set s \<and>
              (\<forall>p\<in>set (markerPositions s). s ! nat p = CHR ''x''))"
proof -
  have "\<exists>r. DefangScheme s = Inr r"
    using assms(2) by (simp add: DefangScheme_def)
  then obtain r where r: "DefangScheme s = Inr r" ..
  then have "r = s \<longleftrightarrow> DefangScheme s = Inr s" by auto
  also have "\<dots> \<longleftrightarrow> \<not> MatchString s \<and> (\<forall>p\<in>set (markerPositions s). s ! nat p = CHR ''x'')"
    by (rule DefangScheme_fixed_iff [OF assms(2)])
  finally show ?thesis using r by (simp add: MatchString_iff)
qed

theorem DefangScheme_differs_unless_marked_witness:
  "ascii ''ftp'' \<and> 2 \<le> length ''ftp'' \<and>
   (\<exists>r. DefangScheme ''ftp'' = Inr r \<and> r \<noteq> ''ftp'')"
  using DefangScheme_differs_unless_marked [of "''ftp''"]
  by (simp add: ascii_def markerPositions_def)

text \<open>
  Claim C1 as stated fails at \<open>hxxp\<close>: its length is 4 and \<open>DefangScheme\<close> returns
  it unchanged.
\<close>

theorem DefangScheme_hxxp_unchanged:
  "2 \<le> length ''hxxp'' \<and> DefangScheme ''hxxp'' = Inr ''hxxp''"
  by (simp add: defang_eval)

subsection \<open>Schemes of four characters\<close>

text \<open>
  Claim C7. For a scheme of 4 characters other than \<open>http\<close> with none of \<open>-\<close>, \<open>+\<close>,
  \<open>.\<close>, the result has the marker at position 2 and the scheme's characters at
  positions 0, 1 and 3; so two such schemes that differ at position 1 have different
  results.
\<close>

theorem DefangScheme_length_4:
  assumes "ascii s" and "length s = 4" and "s \<noteq> ''http''"
    and "CHR ''-'' \<notin> set s" and "CHR ''+'' \<notin> set s" and "CHR ''.'' \<notin> set s"
    and "ascii t" and "length t = 4" and "t \<noteq> ''http''"
    and "CHR ''-'' \<notin> set t" and "CHR ''+'' \<notin> set t" and "CHR ''.'' \<notin> set t"
  shows "(\<exists>r. DefangScheme s = Inr r \<and> r = s[2 := CHR ''x''] \<and> length r = 4 \<and>
              r ! 0 = s ! 0 \<and> r ! 1 = s ! 1 \<and> r ! 2 = CHR ''x'' \<and> r ! 3 = s ! 3) \<and>
         (s ! 1 \<noteq> t ! 1 \<longrightarrow> DefangScheme s \<noteq> DefangScheme t)"
proof -
  have s: "DefangScheme s = Inr (s[2 := CHR ''x''])"
    using assms(2-6) by (auto simp: DefangScheme_def MatchString_iff defangAt_2)
  have t: "DefangScheme t = Inr (t[2 := CHR ''x''])"
    using assms(8-12) by (auto simp: DefangScheme_def MatchString_iff defangAt_2)
  have "s ! 1 = t ! 1" if "s[2 := CHR ''x''] = t[2 := CHR ''x'']"
  proof -
    have "s[2 := CHR ''x''] ! 1 = s ! 1" "t[2 := CHR ''x''] ! 1 = t ! 1" by simp_all
    with that show ?thesis by simp
  qed
  with s t assms(2) show ?thesis by auto
qed

theorem DefangScheme_length_4_witness:
  "DefangScheme ''icap'' = Inr ''icxp'' \<and> DefangScheme ''imap'' = Inr ''imxp'' \<and>
   ''icap'' ! 1 \<noteq> ''imap'' ! 1 \<and> DefangScheme ''icap'' \<noteq> DefangScheme ''imap''"
  using DefangScheme_length_4 [of "''icap''" "''imap''"]
  by (simp add: ascii_def defang_eval)

subsection \<open>Bracket wrapping\<close>

text \<open>
  Claim C6. For a scheme of length at least 2 that contains one of \<open>-\<close>, \<open>+\<close>, \<open>.\<close>
  (\<open>http\<close> and \<open>https\<close> contain none), whatever its length, the result is the
  scheme with each maximal run of those characters wrapped in square brackets and
  every other run copied as it is, so no marker is substituted. The maximal runs are
  what their name says: they concatenate to the scheme, none is empty, each holds
  characters of one kind only, and two neighbours are of different kinds.
\<close>

theorem DefangScheme_brackets_runs:
  assumes "2 \<le> length s"
    and "CHR ''-'' \<in> set s \<or> CHR ''+'' \<in> set s \<or> CHR ''.'' \<in> set s"
  shows "DefangScheme s = Inr (concat (map bracketRun (maximalRuns s))) \<and>
         concat (maximalRuns s) = s \<and>
         (\<forall>r\<in>set (maximalRuns s). r \<noteq> [] \<and>
            (list_all additionalChar r \<or> list_all (\<lambda>c. \<not> additionalChar c) r)) \<and>
         (\<forall>i. Suc i < length (maximalRuns s) \<longrightarrow>
            additionalChar (hd (maximalRuns s ! i))
              \<noteq> additionalChar (hd (maximalRuns s ! Suc i)))"
proof -
  from assms(2) have m: "MatchString s" by (simp add: MatchString_iff)
  then have "s \<noteq> ''http''" "s \<noteq> ''https''" by (auto simp: MatchString_iff)
  with m assms(1) have "DefangScheme s = Inr (concat (map bracketRun (maximalRuns s)))"
    using ReplaceAll_runs [of s] by (simp add: DefangScheme_def)
  then show ?thesis
    using concat_maximalRuns maximalRuns_uniform maximalRuns_alternate by blast
qed

theorem DefangScheme_brackets_runs_witness:
  "2 \<le> length ''a.-b+c'' \<and> CHR ''.'' \<in> set ''a.-b+c'' \<and>
   maximalRuns ''a.-b+c'' = [''a'', ''.-'', ''b'', ''+'', ''c''] \<and>
   DefangScheme ''a.-b+c'' = Inr ''a[.-]b[+]c'' \<and>
   length ''a.b'' = 3 \<and> DefangScheme ''a.b'' = Inr ''a[.]b''"
  using DefangScheme_brackets_runs [of "''a.-b+c''"]
        DefangScheme_brackets_runs [of "''a.b''"]
  by (simp add: bracketRun_def additionalChar_def ADDITIONAL_ALLOWED_SCHEME_CHARS_def)

section \<open>Properties of the verifier\<close>

lemma fst_emit [simp]: "fst (emit m X) = m # fst X"
  by (cases X) simp

lemma snd_emit [simp]: "snd (emit m X) = snd X"
  by (cases X) simp

lemma defangedSchemeIsKnown_iff:
  "defangedSchemeIsKnown scheme knownSchemes
     \<longleftrightarrow> DefangedScheme scheme \<in> Scheme ` set knownSchemes"
  by (induction knownSchemes) auto

subsection \<open>The first check\<close>

lemma notValidLoop_status:
  "snd (notValidLoop schemes rest w) =
     (case find (\<lambda>s. defangedSchemeIsKnown s schemes \<and> \<not> httpEdgeCase s) rest of
        None \<Rightarrow> Returned | Some s \<Rightarrow> Exited 1)"
  by (induction rest arbitrary: w) simp_all

lemma notValidLoop_errors:
  "filter isError (fst (notValidLoop schemes rest w)) =
     (case find (\<lambda>s. defangedSchemeIsKnown s schemes \<and> \<not> httpEdgeCase s) rest of
        None \<Rightarrow> [] | Some s \<Rightarrow> [ErrorStillValid (DefangedScheme s)])"
  by (induction rest arbitrary: w) simp_all

lemma notValidLoop_last:
  "snd (notValidLoop schemes rest w) \<noteq> Returned \<Longrightarrow>
     fst (notValidLoop schemes rest w) \<noteq> [] \<and>
     isError (last (fst (notValidLoop schemes rest w)))"
  by (induction rest arbitrary: w) (auto split: if_splits)


lemma notValidLoop_edge_cases:
  assumes "\<forall>s\<in>set rest. httpEdgeCase s"
  shows "notValidLoop schemes rest w =
           (if \<not> w \<and> (\<exists>s\<in>set rest. defangedSchemeIsKnown s schemes)
            then [WarnHttpDefangsToValid] else [], Returned)"
  using assms
proof (induction rest arbitrary: w)
  case Nil show ?case by simp
next
  case (Cons scheme rest)
  then have ih: "\<And>w. notValidLoop schemes rest w =
           (if \<not> w \<and> (\<exists>s\<in>set rest. defangedSchemeIsKnown s schemes)
            then [WarnHttpDefangsToValid] else [], Returned)"
    by simp
  from Cons.prems have e: "httpEdgeCase scheme" by simp
  show ?case by (simp add: e ih)
qed

subsection \<open>The second check\<close>

lemma oneToOneLoop_shape:
  "(snd (oneToOneLoop schemes rest w seen) = Returned \<and>
      filter isError (fst (oneToOneLoop schemes rest w seen)) = []) \<or>
   (snd (oneToOneLoop schemes rest w seen) = Exited 1 \<and>
      fst (oneToOneLoop schemes rest w seen) \<noteq> [] \<and>
      filter isError (fst (oneToOneLoop schemes rest w seen))
        = [last (fst (oneToOneLoop schemes rest w seen))])"
proof (induction rest arbitrary: w seen)
  case Nil show ?case by simp
next
  case (Cons scheme rest)
  let ?seen = "insert (DefangedScheme scheme) seen"
  note ih = Cons.IH [of True ?seen] Cons.IH [of w ?seen]
  show ?case
  proof (cases "DefangedScheme scheme \<in> seen")
    case False with ih(2) show ?thesis by simp
  next
    case True
    show ?thesis
    proof (cases "httpEdgeCase scheme")
      case False with True show ?thesis by simp
    next
      case e: True
      show ?thesis
      proof (cases w)
        case True with \<open>DefangedScheme scheme \<in> seen\<close> e ih(2) show ?thesis by simp
      next
        case False with \<open>DefangedScheme scheme \<in> seen\<close> e ih(1) show ?thesis by auto
      qed
    qed
  qed
qed



lemma oneToOneLoop_edge_cases:
  assumes "\<forall>s\<in>set rest. httpEdgeCase s"
  shows "oneToOneLoop schemes rest w seen =
           (if \<not> w \<and> ((\<exists>s\<in>set rest. DefangedScheme s \<in> seen)
                        \<or> \<not> distinct (map DefangedScheme rest))
            then [WarnHttpDefangsToHxxp] else [], Returned)"
  using assms
proof (induction rest arbitrary: w seen)
  case Nil show ?case by simp
next
  case (Cons scheme rest)
  then have ih: "\<And>w seen. oneToOneLoop schemes rest w seen =
           (if \<not> w \<and> ((\<exists>s\<in>set rest. DefangedScheme s \<in> seen)
                        \<or> \<not> distinct (map DefangedScheme rest))
            then [WarnHttpDefangsToHxxp] else [], Returned)"
    by simp
  from Cons.prems have e: "httpEdgeCase scheme" by simp
  show ?case by (auto simp: e ih image_iff)
qed

lemma oneToOneLoop_repeat_exits:
  assumes "rest = pre @ s # post"
    and "DefangedScheme s \<in> seen \<union> DefangedScheme ` set pre"
    and "\<not> httpEdgeCase s"
  shows "snd (oneToOneLoop schemes rest w seen) = Exited 1"
  using assms
proof (induction pre arbitrary: rest w seen)
  case Nil then show ?case by simp
next
  case (Cons p pre)
  let ?seen = "insert (DefangedScheme p) seen"
  have "DefangedScheme s \<in> ?seen \<union> DefangedScheme ` set pre"
    using Cons.prems(2) by auto
  from Cons.IH [OF refl this Cons.prems(3)]
  have ih: "\<And>w. snd (oneToOneLoop schemes (pre @ s # post) w ?seen) = Exited 1" .
  show ?case by (simp add: Cons.prems(1) ih)
qed

lemma oneToOneLoop_first_repeat:
  assumes "rest = pre @ s # post"
    and "\<forall>q t r. pre = q @ t # r \<longrightarrow>
           DefangedScheme t \<notin> seen \<union> DefangedScheme ` set q \<or> httpEdgeCase t"
    and "DefangedScheme s \<in> seen \<union> DefangedScheme ` set pre"
    and "\<not> httpEdgeCase s"
  shows "filter isError (fst (oneToOneLoop schemes rest w seen))
           = [ErrorDuplicated (DefangedScheme s) (duplicateSchemes schemes s)]"
  using assms
proof (induction pre arbitrary: rest w seen)
  case Nil then show ?case by simp
next
  case (Cons p pre)
  let ?seen = "insert (DefangedScheme p) seen"
  have p: "DefangedScheme p \<notin> seen \<or> httpEdgeCase p"
    using Cons.prems(2) [rule_format, of "[]" p pre] by simp
  have a: "\<forall>q t r. pre = q @ t # r \<longrightarrow>
           DefangedScheme t \<notin> ?seen \<union> DefangedScheme ` set q \<or> httpEdgeCase t"
  proof (intro allI impI)
    fix q t r assume "pre = q @ t # r"
    then have "p # pre = (p # q) @ t # r" by simp
    from Cons.prems(2) [rule_format, OF this] show
      "DefangedScheme t \<notin> ?seen \<union> DefangedScheme ` set q \<or> httpEdgeCase t" by auto
  qed
  have b: "DefangedScheme s \<in> ?seen \<union> DefangedScheme ` set pre"
    using Cons.prems(3) by auto
  from Cons.IH [OF refl a b Cons.prems(4)]
  have ih: "\<And>w. filter isError (fst (oneToOneLoop schemes (pre @ s # post) w ?seen))
           = [ErrorDuplicated (DefangedScheme s) (duplicateSchemes schemes s)]" .
  from p show ?case by (auto simp: Cons.prems(1) ih)
qed

lemma not_distinct_map:
  assumes "x \<in> set xs" and "y \<in> set xs" and "x \<noteq> y" and "f x = f y"
  shows "\<not> distinct (map f xs)"
  using assms by (auto simp: distinct_map inj_on_def)

subsection \<open>Both checks\<close>

lemma verify_first_check_fails:
  assumes "find (\<lambda>s. defangedSchemeIsKnown s schemes \<and> \<not> httpEdgeCase s) schemes = Some s"
  shows "verify schemes = (fst (defangedSchemesAreNotValid schemes), Exited 1)"
proof -
  have "snd (defangedSchemesAreNotValid schemes) = Exited 1"
    using assms by (simp add: defangedSchemesAreNotValid_def notValidLoop_status)
  then show ?thesis
    by (cases "defangedSchemesAreNotValid schemes") (simp add: verify_def)
qed

lemma verify_first_check_passes:
  assumes "find (\<lambda>s. defangedSchemeIsKnown s schemes \<and> \<not> httpEdgeCase s) schemes = None"
  shows "verify schemes =
           (fst (defangedSchemesAreNotValid schemes) @ fst (defangedSchemesAreOneToOne schemes),
            snd (defangedSchemesAreOneToOne schemes))"
proof -
  have "snd (defangedSchemesAreNotValid schemes) = Returned"
    using assms by (simp add: defangedSchemesAreNotValid_def notValidLoop_status)
  then show ?thesis
    by (cases "defangedSchemesAreNotValid schemes"; cases "defangedSchemesAreOneToOne schemes")
       (simp add: verify_def)
qed

lemma verify_shape:
  "(snd (verify schemes) = Returned \<and> filter isError (fst (verify schemes)) = []) \<or>
   (snd (verify schemes) = Exited 1 \<and> fst (verify schemes) \<noteq> [] \<and>
      filter isError (fst (verify schemes)) = [last (fst (verify schemes))])"
proof (cases "find (\<lambda>s. defangedSchemeIsKnown s schemes \<and> \<not> httpEdgeCase s) schemes")
  case (Some s)
  let ?X = "notValidLoop schemes schemes False"
  have st: "snd ?X = Exited 1" using Some by (simp add: notValidLoop_status)
  then have l: "fst ?X \<noteq> []" "isError (last (fst ?X))"
    using notValidLoop_last [of schemes schemes False] by simp_all
  have "filter isError (fst ?X) = [ErrorStillValid (DefangedScheme s)]"
    using Some by (simp add: notValidLoop_errors)
  moreover from l have "last (fst ?X) \<in> set (filter isError (fst ?X))" by simp
  ultimately have "filter isError (fst ?X) = [last (fst ?X)]" by simp
  with l show ?thesis
    by (simp add: verify_first_check_fails [OF Some] defangedSchemesAreNotValid_def)
next
  case None
  have "filter isError (fst (defangedSchemesAreNotValid schemes)) = []"
    using None by (simp add: defangedSchemesAreNotValid_def notValidLoop_errors)
  with oneToOneLoop_shape [of schemes schemes False "{}"] show ?thesis
    by (auto simp: verify_first_check_passes [OF None] defangedSchemesAreOneToOne_def)
qed


lemmas verify_eval =
  verify_def defangedSchemesAreNotValid_def defangedSchemesAreOneToOne_def
  duplicateSchemes_def httpEdgeCase_def entry_def

subsection \<open>The registry of http, https, hxxp and hxxps\<close>

text \<open>
  Claim C2, as the code has it. On a registry whose scheme names are exactly \<open>http\<close>,
  \<open>https\<close>, \<open>hxxp\<close> and \<open>hxxps\<close>, each with the defanged form \<open>DefangScheme\<close>
  gives it, in any order, \<open>verify\<close> returns with no error and prints two warnings:
  each check has a flag of its own and warns once.
\<close>

theorem verify_http_registry:
  assumes "Scheme ` set schemes = {''http'', ''https'', ''hxxp'', ''hxxps''}"
    and "\<forall>s\<in>set schemes. DefangScheme (Scheme s) = Inr (DefangedScheme s)"
  shows "verify schemes =
           ([InfoCheckingNotValid, WarnHttpDefangsToValid,
             InfoCheckingOneToOne, WarnHttpDefangsToHxxp], Returned) \<and>
         length (filter isWarn (fst (verify schemes))) = 2 \<and>
         filter isError (fst (verify schemes)) = []"
proof -
  have edge: "\<forall>s\<in>set schemes. httpEdgeCase s"
    using assms(1) by (auto simp: httpEdgeCase_def)
  from assms(1) have "''http'' \<in> Scheme ` set schemes" and "''hxxp'' \<in> Scheme ` set schemes"
    by simp_all
  then obtain a b where a: "a \<in> set schemes" "Scheme a = ''http''"
    and b: "b \<in> set schemes" "Scheme b = ''hxxp''"
    by (auto simp: image_iff)
  have "DefangScheme ''http'' = Inr ''hxxp''" "DefangScheme ''hxxp'' = Inr ''hxxp''"
    by (simp_all add: defang_eval)
  moreover have "DefangScheme (Scheme a) = Inr (DefangedScheme a)"
    "DefangScheme (Scheme b) = Inr (DefangedScheme b)"
    using assms(2) a(1) b(1) by blast+
  ultimately have da: "DefangedScheme a = ''hxxp''" and db: "DefangedScheme b = ''hxxp''"
    using a(2) b(2) by simp_all
  have "defangedSchemeIsKnown a schemes"
    by (simp add: defangedSchemeIsKnown_iff assms(1) da)
  with a have known: "\<exists>s\<in>set schemes. defangedSchemeIsKnown s schemes" by blast
  have "a \<noteq> b" using a b by auto
  with a b da db have dup: "\<not> distinct (map DefangedScheme schemes)"
    by (intro not_distinct_map [of a schemes b]) simp_all
  have 1: "defangedSchemesAreNotValid schemes =
             ([InfoCheckingNotValid, WarnHttpDefangsToValid], Returned)"
    using known by (simp add: defangedSchemesAreNotValid_def notValidLoop_edge_cases [OF edge])
  have 2: "defangedSchemesAreOneToOne schemes =
             ([InfoCheckingOneToOne, WarnHttpDefangsToHxxp], Returned)"
    using dup by (simp add: defangedSchemesAreOneToOne_def oneToOneLoop_edge_cases [OF edge])
  show ?thesis by (simp add: verify_def 1 2)
qed

theorem verify_http_registry_witness:
  "verify [entry ''hxxps'' ''hxxps'', entry ''https'' ''hxxps'',
           entry ''http'' ''hxxp'', entry ''hxxp'' ''hxxp''] =
     ([InfoCheckingNotValid, WarnHttpDefangsToValid,
       InfoCheckingOneToOne, WarnHttpDefangsToHxxp], Returned)"
  using verify_http_registry
          [of "[entry ''hxxps'' ''hxxps'', entry ''https'' ''hxxps'',
                entry ''http'' ''hxxp'', entry ''hxxp'' ''hxxp'']"]
  by (auto simp: entry_def defang_eval)

text \<open>
  Claim C2 as stated fails on the registry \<open>http\<close>, \<open>https\<close>, \<open>hxxp\<close>, \<open>hxxps\<close>:
  \<open>verify\<close> prints two warnings there, not one.
\<close>

theorem verify_http_registry_two_warnings:
  "DefangScheme ''http'' = Inr ''hxxp'' \<and> DefangScheme ''https'' = Inr ''hxxps'' \<and>
   DefangScheme ''hxxp'' = Inr ''hxxp'' \<and> DefangScheme ''hxxps'' = Inr ''hxxps'' \<and>
   verify [entry ''http'' ''hxxp'', entry ''https'' ''hxxps'',
           entry ''hxxp'' ''hxxp'', entry ''hxxps'' ''hxxps''] =
     ([InfoCheckingNotValid, WarnHttpDefangsToValid,
       InfoCheckingOneToOne, WarnHttpDefangsToHxxp], Returned) \<and>
   length (filter isWarn (fst (verify [entry ''http'' ''hxxp'', entry ''https'' ''hxxps'',
           entry ''hxxp'' ''hxxp'', entry ''hxxps'' ''hxxps'']))) \<noteq> 1"
  by (simp add: verify_eval defang_eval)

subsection \<open>What the exception lets through\<close>

text \<open>
  Claim C4 at the registry \<open>hxap\<close>, \<open>http\<close>. Both schemes have the defanged form
  \<open>hxxp\<close>, and \<open>hxap\<close> is none of the four schemes of the exception. With \<open>hxap\<close>
  first the duplicate is met at \<open>http\<close>, and \<open>verify\<close> warns and returns; with
  \<open>http\<close> first it is met at \<open>hxap\<close>, and \<open>verify\<close> reports it and exits.
\<close>

theorem verify_exception_depends_on_order:
  "DefangScheme ''hxap'' = Inr ''hxxp'' \<and> DefangScheme ''http'' = Inr ''hxxp'' \<and>
   verify [entry ''hxap'' ''hxxp'', entry ''http'' ''hxxp''] =
     ([InfoCheckingNotValid, InfoCheckingOneToOne, WarnHttpDefangsToHxxp], Returned) \<and>
   verify [entry ''http'' ''hxxp'', entry ''hxap'' ''hxxp''] =
     ([InfoCheckingNotValid, InfoCheckingOneToOne,
       ErrorDuplicated ''hxxp'' [''http'', ''hxap'']], Exited 1)"
  by (simp add: verify_eval defang_eval)

subsection \<open>One error, then exit\<close>

text \<open>
  Claim C5, as the code has it. \<open>verify\<close> prints at most one error: either it returns
  and has printed none, or it exits with status 1 and the error is the last line it
  printed. The error is the one of the first violation met. When some scheme's defanged
  form is a scheme of the registry outside the edge case, it is the error of the first
  such scheme. When there is none, it is the error of the first scheme \<open>t\<close> outside the
  edge case whose defanged form is that of an earlier scheme. Nothing is said of any
  other violation.
\<close>

theorem verify_stops_at_first_error:
  "((snd (verify schemes) = Returned \<and> filter isError (fst (verify schemes)) = []) \<or>
    (snd (verify schemes) = Exited 1 \<and> fst (verify schemes) \<noteq> [] \<and>
       filter isError (fst (verify schemes)) = [last (fst (verify schemes))])) \<and>
   (find (\<lambda>s. defangedSchemeIsKnown s schemes \<and> \<not> httpEdgeCase s) schemes = Some s
      \<longrightarrow> snd (verify schemes) = Exited 1 \<and>
          filter isError (fst (verify schemes)) = [ErrorStillValid (DefangedScheme s)]) \<and>
   (find (\<lambda>s. defangedSchemeIsKnown s schemes \<and> \<not> httpEdgeCase s) schemes = None \<and>
    schemes = pre @ t # post \<and>
    (\<forall>q u r. pre = q @ u # r \<longrightarrow>
       DefangedScheme u \<notin> DefangedScheme ` set q \<or> httpEdgeCase u) \<and>
    DefangedScheme t \<in> DefangedScheme ` set pre \<and> \<not> httpEdgeCase t
      \<longrightarrow> snd (verify schemes) = Exited 1 \<and>
          filter isError (fst (verify schemes)) =
            [ErrorDuplicated (DefangedScheme t)
               (map Scheme (filter (\<lambda>u. DefangedScheme u = DefangedScheme t) schemes))])"
proof (intro conjI impI)
  show "(snd (verify schemes) = Returned \<and> filter isError (fst (verify schemes)) = []) \<or>
    (snd (verify schemes) = Exited 1 \<and> fst (verify schemes) \<noteq> [] \<and>
       filter isError (fst (verify schemes)) = [last (fst (verify schemes))])"
    by (rule verify_shape)
next
  assume f: "find (\<lambda>s. defangedSchemeIsKnown s schemes \<and> \<not> httpEdgeCase s) schemes = Some s"
  then show "snd (verify schemes) = Exited 1"
    by (simp add: verify_first_check_fails)
  from f show "filter isError (fst (verify schemes)) = [ErrorStillValid (DefangedScheme s)]"
    by (simp add: verify_first_check_fails [OF f] defangedSchemesAreNotValid_def
                  notValidLoop_errors)
next
  assume a: "find (\<lambda>s. defangedSchemeIsKnown s schemes \<and> \<not> httpEdgeCase s) schemes = None \<and>
    schemes = pre @ t # post \<and>
    (\<forall>q u r. pre = q @ u # r \<longrightarrow>
       DefangedScheme u \<notin> DefangedScheme ` set q \<or> httpEdgeCase u) \<and>
    DefangedScheme t \<in> DefangedScheme ` set pre \<and> \<not> httpEdgeCase t"
  then have n: "find (\<lambda>s. defangedSchemeIsKnown s schemes \<and> \<not> httpEdgeCase s) schemes = None"
    and d: "schemes = pre @ t # post" and r0: "DefangedScheme t \<in> DefangedScheme ` set pre"
    and e: "\<not> httpEdgeCase t"
    and f0: "\<forall>q u r. pre = q @ u # r \<longrightarrow>
       DefangedScheme u \<notin> DefangedScheme ` set q \<or> httpEdgeCase u"
    by blast+
  from r0 have r: "DefangedScheme t \<in> {} \<union> DefangedScheme ` set pre" by simp
  from f0 have first: "\<forall>q u r. pre = q @ u # r \<longrightarrow>
       DefangedScheme u \<notin> {} \<union> DefangedScheme ` set q \<or> httpEdgeCase u" by simp
  from n have 1: "filter isError (fst (defangedSchemesAreNotValid schemes)) = []"
    by (simp add: defangedSchemesAreNotValid_def notValidLoop_errors)
  show "snd (verify schemes) = Exited 1"
    using oneToOneLoop_repeat_exits [OF d r e, of schemes False]
    by (simp add: verify_first_check_passes [OF n] defangedSchemesAreOneToOne_def)
  show "filter isError (fst (verify schemes)) =
            [ErrorDuplicated (DefangedScheme t)
               (map Scheme (filter (\<lambda>u. DefangedScheme u = DefangedScheme t) schemes))]"
    using oneToOneLoop_first_repeat [OF d first r e, of schemes False] 1
    by (simp add: verify_first_check_passes [OF n] defangedSchemesAreOneToOne_def
                  duplicateSchemes_def)
qed

theorem verify_stops_at_first_error_witness:
  "snd (verify [entry ''ftp'' ''fxp'', entry ''axa'' ''axa'', entry ''bxb'' ''bxb''])
     = Exited 1 \<and>
   filter isError
     (fst (verify [entry ''ftp'' ''fxp'', entry ''axa'' ''axa'', entry ''bxb'' ''bxb'']))
     = [ErrorStillValid ''axa''] \<and>
   snd (verify [entry ''abcde'' ''axxde'', entry ''afgde'' ''axxde'',
                entry ''ahide'' ''axxde'', entry ''nfs'' ''nxs'', entry ''nbs'' ''nxs''])
     = Exited 1 \<and>
   filter isError
     (fst (verify [entry ''abcde'' ''axxde'', entry ''afgde'' ''axxde'',
                   entry ''ahide'' ''axxde'', entry ''nfs'' ''nxs'', entry ''nbs'' ''nxs'']))
     = [ErrorDuplicated ''axxde'' [''abcde'', ''afgde'', ''ahide'']]"
  using verify_stops_at_first_error
          [of "[entry ''ftp'' ''fxp'', entry ''axa'' ''axa'', entry ''bxb'' ''bxb'']"
              "entry ''axa'' ''axa''"]
        verify_stops_at_first_error
          [of "[entry ''abcde'' ''axxde'', entry ''afgde'' ''axxde'',
                entry ''ahide'' ''axxde'', entry ''nfs'' ''nxs'', entry ''nbs'' ''nxs'']"
              _ "[entry ''abcde'' ''axxde'']" "entry ''afgde'' ''axxde''"
              "[entry ''ahide'' ''axxde'', entry ''nfs'' ''nxs'', entry ''nbs'' ''nxs'']"]
  by (simp add: verify_eval)

text \<open>
  Claim C5 as stated fails on the registry \<open>axa\<close>, \<open>bxb\<close>, \<open>abcde\<close>, \<open>afgde\<close>. The
  defanged forms \<open>axa\<close> and \<open>bxb\<close> are schemes of the registry, and \<open>abcde\<close> and
  \<open>afgde\<close> share the defanged form \<open>axxde\<close>: three violations, none of them in the
  edge case. \<open>verify\<close> reports the first one and exits.
\<close>

theorem verify_reports_one_violation_of_three:
  "DefangScheme ''axa'' = Inr ''axa'' \<and> DefangScheme ''bxb'' = Inr ''bxb'' \<and>
   DefangScheme ''abcde'' = Inr ''axxde'' \<and> DefangScheme ''afgde'' = Inr ''axxde'' \<and>
   verify [entry ''axa'' ''axa'', entry ''bxb'' ''bxb'',
           entry ''abcde'' ''axxde'', entry ''afgde'' ''axxde''] =
     ([InfoCheckingNotValid, ErrorStillValid ''axa''], Exited 1)"
  by (simp add: verify_eval defang_eval)

subsection \<open>The list of offenders\<close>




end
